theory Spec2Isabelle
  imports Main
begin

section \<open>JavaScript values\<close>

text \<open>
  The values the watcher handles: the primitives that occur in the page outcomes
  (\<open>undefined\<close>, \<open>true\<close>, \<open>false\<close>), strings, and plain objects. An object carries
  the address it was allocated at, so that two objects with the same properties are
  still two values; its own enumerable properties are kept in insertion order.
\<close>

datatype jsval =
    JUndefined
  | JNull
  | JBool bool
  | JStr string
  | JObj nat "(string \<times> jsval) list"

text \<open>ToBoolean, as \<open>||\<close>, \<open>?:\<close> and \<open>if\<close> apply it.\<close>

fun truthy :: "jsval \<Rightarrow> bool" where
  "truthy JUndefined = False"
| "truthy JNull = False"
| "truthy (JBool b) = b"
| "truthy (JStr s) = (s \<noteq> [])"
| "truthy (JObj r ps) = True"

text \<open>\<open>a || b\<close>: the left operand when it is truthy, the right one otherwise.\<close>

definition js_or :: "jsval \<Rightarrow> jsval \<Rightarrow> jsval" where
  "js_or a b = (if truthy a then a else b)"

text \<open>ToString, as string concatenation with \<open>+\<close> applies it.\<close>

fun to_string :: "jsval \<Rightarrow> string" where
  "to_string JUndefined = ''undefined''"
| "to_string JNull = ''null''"
| "to_string (JBool b) = (if b then ''true'' else ''false'')"
| "to_string (JStr s) = s"
| "to_string (JObj r ps) = ''[object Object]''"

text \<open>\<open>o.k\<close>: reading a property that the object does not have gives \<open>undefined\<close>.\<close>

fun get_prop :: "jsval \<Rightarrow> string \<Rightarrow> jsval" where
  "get_prop (JObj r ps) k = (case map_of ps k of None \<Rightarrow> JUndefined | Some v \<Rightarrow> v)"
| "get_prop v k = JUndefined"

fun assign :: "string \<Rightarrow> jsval \<Rightarrow> (string \<times> jsval) list \<Rightarrow> (string \<times> jsval) list" where
  "assign k v [] = [(k, v)]"
| "assign k v ((k', w) # ps) = (if k' = k then (k, v) # ps else (k', w) # assign k v ps)"

text \<open>\<open>o.k = v\<close> on an object.\<close>

fun set_prop :: "jsval \<Rightarrow> string \<Rightarrow> jsval \<Rightarrow> jsval" where
  "set_prop (JObj r ps) k v = JObj r (assign k v ps)"
| "set_prop x k v = x"

fun own_keys :: "jsval \<Rightarrow> string list" where
  "own_keys (JObj r ps) = map fst ps"
| "own_keys v = []"

text \<open>
  \<open>xs[i] = v\<close> on an array: writing past the end extends the array, and the
  positions skipped read as \<open>undefined\<close>.
\<close>

definition array_set :: "jsval list \<Rightarrow> nat \<Rightarrow> jsval \<Rightarrow> jsval list" where
  "array_set xs i v =
     (if i < length xs then xs[i := v]
      else xs @ replicate (i - length xs) JUndefined @ [v])"

section \<open>lodash\<close>

text \<open>\<open>_.reduce(array, iteratee, accumulator)\<close>: a left fold from the accumulator.\<close>

definition reduce :: "'b list \<Rightarrow> ('a \<Rightarrow> 'b \<Rightarrow> 'a) \<Rightarrow> 'a \<Rightarrow> 'a" where
  "reduce xs f acc = foldl f acc xs"

text \<open>
  \<open>_.isEqual\<close>: the same value, or two objects with equally many own properties where
  every property of the first is an own property of the second with an equal value.
\<close>

fun isEqual :: "jsval \<Rightarrow> jsval \<Rightarrow> bool" where
  "isEqual (JObj i ps) (JObj j qs) =
     (i = j \<or>
      (length ps = length qs \<and>
       list_all (\<lambda>(k, v). case map_of qs k of None \<Rightarrow> False | Some w \<Rightarrow> isEqual v w) ps))"
| "isEqual a b = (a = b)"

text \<open>
  \<open>_.eq\<close> as the watcher calls it: in lodash 3, the release line of the time the
  watcher was written, \<open>eq\<close> is an alias of \<open>isEqual\<close>.
\<close>

definition eq :: "jsval \<Rightarrow> jsval \<Rightarrow> bool" where
  "eq a b = isEqual a b"

section \<open>cheerio: documents and descendant selectors\<close>

text \<open>
  A parsed document is a forest of nodes. The two selectors of the poller are chains of
  simple selectors (a class or a tag name) joined by the descendant combinator.
\<close>

datatype node =
    Element string "string list" "node list"
  | TextNode string

datatype simple_sel = ByClass string | ByTag string

fun matches_simple :: "simple_sel \<Rightarrow> node \<Rightarrow> bool" where
  "matches_simple (ByClass c) (Element t cs ch) = (c \<in> set cs)"
| "matches_simple (ByTag n) (Element t cs ch) = (t = n)"
| "matches_simple s (TextNode x) = False"

text \<open>
  The ancestors of a node, nearest first, against the rest of the chain, innermost
  first: each simple selector takes the nearest ancestor that matches it.
\<close>

fun has_ancestors :: "simple_sel list \<Rightarrow> node list \<Rightarrow> bool" where
  "has_ancestors [] anc = True"
| "has_ancestors (s # ss) [] = False"
| "has_ancestors (s # ss) (a # anc) =
     (if matches_simple s a then has_ancestors ss anc else has_ancestors (s # ss) anc)"

text \<open>The matches below one node, in document order, each element once.\<close>

fun select_in :: "simple_sel \<Rightarrow> simple_sel list \<Rightarrow> node list \<Rightarrow> node \<Rightarrow> node list" where
  "select_in c up anc (TextNode x) = []"
| "select_in c up anc (Element t cs ch) =
     (if matches_simple c (Element t cs ch) \<and> has_ancestors up anc
      then [Element t cs ch] else [])
     @ concat (map (select_in c up (Element t cs ch # anc)) ch)"

text \<open>\<open>$(selector)\<close> on a loaded document; the selector is given outermost first.\<close>

definition select :: "simple_sel list \<Rightarrow> node list \<Rightarrow> node list" where
  "select sel doc =
     (case rev sel of
        [] \<Rightarrow> []
      | c # up \<Rightarrow> concat (map (select_in c up []) doc))"

text \<open>The proper descendants of a node, and all nodes of a document.\<close>

fun inside :: "node \<Rightarrow> node list" where
  "inside (TextNode x) = []"
| "inside (Element t cs ch) = concat (map (\<lambda>c. c # inside c) ch)"

definition nodes_of :: "node list \<Rightarrow> node list" where
  "nodes_of doc = concat (map (\<lambda>c. c # inside c) doc)"

text \<open>
  What a chain of simple selectors means: among the given nodes there is one matching
  the first selector, with one matching the next among its proper descendants, and so on.
\<close>

fun nested :: "simple_sel list \<Rightarrow> node list \<Rightarrow> bool" where
  "nested [] ns = True"
| "nested (s # ss) ns = (\<exists>d\<in>set ns. matches_simple s d \<and> nested ss (inside d))"

text \<open>
  The markup contract in the words of the specification: a "day has shows" entry
  that contains a priced time slot or a link.
\<close>

definition spec_page_available :: "node list \<Rightarrow> bool" where
  "spec_page_available doc \<longleftrightarrow>
     (\<exists>d\<in>set (nodes_of doc). matches_simple (ByClass ''day-has-shows'') d \<and>
        (\<exists>s\<in>set (inside d). matches_simple (ByClass ''show-lowest-price'') s \<or>
                              matches_simple (ByTag ''a'') s))"

text \<open>Two calendar pages: a day whose time slot is a plain link, and one whose slot is priced.\<close>

definition link_page :: "node list" where
  "link_page =
     [Element ''div'' [''day-has-shows'']
        [Element ''ul'' [''times''] [Element ''a'' [] [TextNode ''10:00'']]]]"

definition priced_page :: "node list" where
  "priced_page =
     [Element ''div'' [''day-has-shows'']
        [Element ''ul'' [''times''] [Element ''span'' [''show-lowest-price''] [TextNode ''5.00'']]]]"

section \<open>The poller\<close>

datatype error = Error string

text \<open>
  The response of the calendar request. \<open>cheerio.load(res.text)\<close> parses the body; the
  model keeps the body as the document it parses to.
\<close>

record response =
  res_text :: "node list"

text \<open>
  What superagent hands to the \<open>end\<close> callback: \<open>Inl err\<close> for \<open>(err, res)\<close> with an
  error, \<open>Inr res\<close> for \<open>(null, res)\<close>.
\<close>

type_synonym reply = "error + response"

text \<open>The two versions of the poller differ in the selector of \<open>processPage\<close> only.\<close>

datatype variant = ShowLowestPrice | AnyLink

fun selector :: "variant \<Rightarrow> simple_sel list" where
  "selector ShowLowestPrice =
     [ByClass ''day-has-shows'', ByClass ''times'', ByClass ''show-lowest-price'']"
| "selector AnyLink =
     [ByClass ''day-has-shows'', ByClass ''times'', ByTag ''a'']"

definition pages :: "string list" where
  "pages = [''http://www.seetickets.com/tour/dismaland/calendar/1'',
            ''http://www.seetickets.com/tour/dismaland/calendar/2'']"

datatype log_entry =
    DebugCalled string
  | ErrorLogged error
  | DebugDone "jsval list"
  | PollingError error
  | VerboseResult jsval
  | InfoChanged jsval
  | InfoStarted

text \<open>
  \<open>processPage(err, res, cb)\<close>: what it logs and the arguments \<open>(err, value)\<close> it
  passes to \<open>cb\<close>; \<open>cb(err)\<close> passes no value, which reads as \<open>undefined\<close>.
\<close>

definition processPage :: "variant \<Rightarrow> reply \<Rightarrow> log_entry list \<times> error option \<times> jsval" where
  "processPage v r =
     (case r of
        Inl err \<Rightarrow> ([ErrorLogged err], Some err, JUndefined)
      | Inr res \<Rightarrow>
          (let shows = select (selector v) (res_text res)
           in if length shows = 0 then ([], None, JBool False)
              else ([], None, JBool True)))"

text \<open>
  The waterfall run for one page: \<open>getPage\<close> logs the page and hands \<open>(err, res)\<close> on
  to \<open>processPage\<close>, whose callback is the waterfall's.
\<close>

definition check_page :: "variant \<Rightarrow> string \<Rightarrow> reply \<Rightarrow> log_entry list \<times> error option \<times> jsval" where
  "check_page v page r =
     (case processPage v r of (lg, e, x) \<Rightarrow> (DebugCalled page # lg, e, x))"

text \<open>
  The state of one \<open>async.map\<close> over the pages: the results array, the number of page
  checks still running, whether the final callback has been used up (it runs at most
  once), the invocations of the callback of \<open>poll\<close> so far, and the poller's log.
\<close>

record map_state =
  results :: "jsval list"
  completed :: int
  called :: bool
  calls :: "(error option \<times> jsval) list"
  logged :: "log_entry list"

text \<open>
  The final function of \<open>poll\<close>: it logs the results, builds a fresh object at address
  \<open>ref\<close>, sets its status and calls \<open>callback(err, result)\<close>.
\<close>

definition poll_done :: "nat \<Rightarrow> error option \<Rightarrow> jsval list \<Rightarrow> log_entry list \<times> error option \<times> jsval" where
  "poll_done ref err rs =
     ([DebugDone rs],
      err,
      set_prop (JObj ref []) ''status''
        (JStr (if truthy (reduce rs (\<lambda>acc result. js_or acc result) (JBool False))
               then ''available'' else ''unavailable'')))"

definition fire :: "nat \<Rightarrow> error option \<Rightarrow> map_state \<Rightarrow> map_state" where
  "fire ref err st =
     (if called st then st
      else (case poll_done ref err (results st) of
              (lg, c) \<Rightarrow> st\<lparr>called := True, calls := calls st @ [c], logged := logged st @ lg\<rparr>))"

text \<open>
  All requests are issued before any of them completes; \<open>completed\<close> then counts the
  pages, and an empty collection calls back at once.
\<close>

definition start :: "nat \<Rightarrow> map_state" where
  "start ref =
     (let st = \<lparr>results = [], completed = int (length pages), called = False,
                calls = [], logged = []\<rparr>
      in if completed st = 0 then fire ref None st else st)"

text \<open>
  The request of page \<open>i\<close> completes with a reply: the page's value is stored at its
  index, the count goes down, an error calls back at once, and so does the last
  completion.
\<close>

definition on_reply :: "variant \<Rightarrow> nat \<Rightarrow> map_state \<Rightarrow> nat \<times> reply \<Rightarrow> map_state" where
  "on_reply v ref st ev =
     (case ev of (i, r) \<Rightarrow>
        if i < length pages then
          (case check_page v (pages ! i) r of (lg, e, x) \<Rightarrow>
             (let st1 = st\<lparr>logged := logged st @ lg,
                           results := array_set (results st) i x,
                           completed := completed st - 1\<rparr>
              in if e \<noteq> None then fire ref e st1
                 else if completed st1 \<le> 0 then fire ref None st1
                 else st1))
        else st)"

text \<open>One cycle: the replies arrive in the order of the list.\<close>

definition poll :: "variant \<Rightarrow> nat \<Rightarrow> (nat \<times> reply) list \<Rightarrow> map_state" where
  "poll v ref evs = foldl (on_reply v ref) (start ref) evs"

text \<open>
  The object at \<open>ref\<close> whose only property is the status aggregated from a results
  array; every invocation of the callback so far came with such an object, for a results
  array that the log shows.
\<close>

definition aggregated :: "nat \<Rightarrow> jsval list \<Rightarrow> jsval" where
  "aggregated ref rs =
     JObj ref [(''status'',
        JStr (if \<exists>x\<in>set rs. truthy x then ''available'' else ''unavailable''))]"

definition recorded :: "nat \<Rightarrow> map_state \<Rightarrow> bool" where
  "recorded ref st \<longleftrightarrow>
     (\<forall>c\<in>set (calls st). \<exists>rs. DebugDone rs \<in> set (logged st) \<and> snd c = aggregated ref rs)"

text \<open>A cycle is complete when the request of every page has completed, each once.\<close>

definition complete :: "(nat \<times> reply) list \<Rightarrow> bool" where
  "complete evs \<longleftrightarrow>
     distinct (map fst evs) \<and> set (map fst evs) = set [0..<length pages]"

section \<open>The application\<close>

datatype message =
    Mail string string string string
  | PushDevices
  | PushNote string string

record app_state =
  currentResult :: jsval
  next_ref :: nat
  outbox :: "message list"
  applog :: "log_entry list"

definition init :: app_state where
  "init = \<lparr>currentResult = JObj 0 [], next_ref = 1, outbox = [], applog = []\<rparr>"

text \<open>
  The callback that \<open>app.js\<close> gives to \<open>startPolling\<close>; \<open>rcpt\<close> is \<open>MAIL_RECIPIENT\<close>.
\<close>

definition callback :: "string \<Rightarrow> error option \<Rightarrow> jsval \<Rightarrow> app_state \<Rightarrow> app_state" where
  "callback rcpt err result st =
     (let st1 = (case err of
                   Some e \<Rightarrow> st\<lparr>applog := applog st @ [PollingError e]\<rparr>
                 | None \<Rightarrow> st);
          st2 = st1\<lparr>applog := applog st1 @ [VerboseResult result]\<rparr>
      in if \<not> eq (currentResult st2) result then
           st2\<lparr>currentResult := result,
               applog := applog st2 @ [InfoChanged result],
               outbox := outbox st2 @
                 [Mail ''dimwatch@slytherin-basement.com'' rcpt
                       ''Dismaland availability changed!''
                       (''Dismaland is now '' @ to_string (get_prop result ''status'')),
                  PushDevices,
                  PushNote ''Dismaland availability changed!''
                       (''Dismaland is now '' @ to_string (get_prop result ''status''))]\<rparr>
         else st2)"

text \<open>
  One firing of the timer, taken at the moment its cycle calls back: \<open>poll(callback)\<close>,
  with the result object of the cycle allocated at the next free address.
\<close>

definition tick ::
  "variant \<Rightarrow> (error option \<Rightarrow> jsval \<Rightarrow> app_state \<Rightarrow> app_state) \<Rightarrow> app_state \<Rightarrow>
   (nat \<times> reply) list \<Rightarrow> app_state" where
  "tick v cb st evs =
     (let cs = calls (poll v (next_ref st) evs)
      in foldl (\<lambda>s c. case c of (e, r) \<Rightarrow> cb e r s)
               (st\<lparr>next_ref := next_ref st + length cs\<rparr>) cs)"

text \<open>
  \<open>startPolling(callback)\<close>: the timer is set and the start is logged; the cycles then
  run, listed in the order in which they call back.
\<close>

definition startPolling ::
  "variant \<Rightarrow> (error option \<Rightarrow> jsval \<Rightarrow> app_state \<Rightarrow> app_state) \<Rightarrow> app_state \<Rightarrow>
   (nat \<times> reply) list list \<Rightarrow> app_state" where
  "startPolling v cb st cycles =
     foldl (tick v cb) (st\<lparr>applog := applog st @ [InfoStarted]\<rparr>) cycles"

text \<open>\<open>app.js\<close>: the stored result starts as an empty object, and polling starts.\<close>

definition app :: "variant \<Rightarrow> string \<Rightarrow> (nat \<times> reply) list list \<Rightarrow> app_state" where
  "app v rcpt cycles = startPolling v (callback rcpt) init cycles"

text \<open>
  The stored result is an object that was allocated before the next free address.
\<close>

definition allocated :: "app_state \<Rightarrow> bool" where
  "allocated st \<longleftrightarrow> (\<exists>i ps. currentResult st = JObj i ps \<and> i < next_ref st)"

section \<open>Properties\<close>

subsection \<open>One polling cycle\<close>

lemma length_pages: "length pages = 2"
  by (simp add: pages_def)

lemma truthy_foldl_or:
  "truthy (foldl (\<lambda>acc result. js_or acc result) acc rs) \<longleftrightarrow> truthy acc \<or> (\<exists>x\<in>set rs. truthy x)"
  by (induction rs arbitrary: acc) (auto simp: js_or_def)

lemma poll_done_eq:
  "poll_done ref err rs =
     ([DebugDone rs], err,
      JObj ref [(''status'', JStr (if \<exists>x\<in>set rs. truthy x then ''available'' else ''unavailable''))])"
  by (simp add: poll_done_def reduce_def truthy_foldl_or)

lemma complete_cases:
  assumes "complete evs"
  shows "\<exists>r0 r1. evs = [(0, r0), (1, r1)] \<or> evs = [(1, r1), (0, r0)]"
proof -
  from assms have d: "distinct (map fst evs)" and s: "set (map fst evs) = {0, 1}"
    by (auto simp: complete_def length_pages)
  have "card (set (map fst evs)) = length (map fst evs)"
    using d by (rule distinct_card)
  then have "length evs = 2" by (simp only: s length_map) simp
  then obtain x y where xy: "evs = [x, y]"
    by (metis (no_types, opaque_lifting) One_nat_def Suc_1 length_0_conv length_Suc_conv)
  with d s have "fst x \<noteq> fst y" "{fst x, fst y} = {0, 1}" by auto
  then have "(fst x = 0 \<and> fst y = 1) \<or> (fst x = 1 \<and> fst y = 0)"
    by (auto simp: doubleton_eq_iff)
  then show ?thesis using xy by (cases x; cases y) auto
qed

lemma processPage_cases:
  "processPage v r =
     (case r of
        Inl err \<Rightarrow> ([ErrorLogged err], Some err, JUndefined)
      | Inr res \<Rightarrow> ([], None, JBool (select (selector v) (res_text res) \<noteq> [])))"
  by (simp add: processPage_def split: sum.splits)

lemma calls_two:
  assumes "i < 2" "j < 2" "i \<noteq> j"
  shows "calls (poll v ref [(i, ri), (j, rj)]) =
     [case ri of
        Inl e \<Rightarrow> (Some e, JObj ref [(''status'', JStr ''unavailable'')])
      | Inr a \<Rightarrow>
          (case rj of
             Inl e \<Rightarrow>
               (Some e, JObj ref [(''status'',
                  JStr (if select (selector v) (res_text a) \<noteq> [] then ''available'' else ''unavailable''))])
           | Inr b \<Rightarrow>
               (None, JObj ref [(''status'',
                  JStr (if select (selector v) (res_text a) \<noteq> [] \<or> select (selector v) (res_text b) \<noteq> []
                        then ''available'' else ''unavailable''))]))]"
proof -
  have s0: "start ref = \<lparr>results = [], completed = 2, called = False, calls = [], logged = []\<rparr>"
    by (simp add: start_def length_pages Let_def)
  from assms consider "i = 0" "j = 1" | "i = 1" "j = 0" by linarith
  then show ?thesis
  proof cases
    case 1
    show ?thesis
      by (cases ri; cases rj)
         (simp_all add: 1 poll_def s0 on_reply_def fire_def check_page_def processPage_cases
            poll_done_eq array_set_def length_pages Let_def)
  next
    case 2
    show ?thesis
      by (cases ri; cases rj)
         (simp_all add: 2 poll_def s0 on_reply_def fire_def check_page_def processPage_cases
            poll_done_eq array_set_def length_pages Let_def)
  qed
qed

subsection \<open>What every invocation of the callback carries\<close>

lemma poll_done_aggregated: "poll_done ref err rs = ([DebugDone rs], err, aggregated ref rs)"
  by (simp add: poll_done_eq aggregated_def)

lemma fire_recorded:
  assumes "recorded ref st"
  shows "recorded ref (fire ref e st)"
proof (cases "called st")
  case True
  then show ?thesis using assms by (simp add: fire_def)
next
  case False
  then have c: "calls (fire ref e st) = calls st @ [(e, aggregated ref (results st))]"
    and l: "logged (fire ref e st) = logged st @ [DebugDone (results st)]"
    by (simp_all add: fire_def poll_done_aggregated)
  show ?thesis
    unfolding recorded_def c l using assms unfolding recorded_def by fastforce
qed

lemma on_reply_recorded:
  assumes r: "recorded ref st"
  shows "recorded ref (on_reply v ref st ev)"
proof -
  obtain i rp where ev: "ev = (i, rp)" by (cases ev)
  obtain lg e x where cp: "check_page v (pages ! i) rp = (lg, e, x)"
    by (cases "check_page v (pages ! i) rp")
  let ?st1 = "st\<lparr>logged := logged st @ lg, results := array_set (results st) i x,
                   completed := completed st - 1\<rparr>"
  have "recorded ref ?st1" using r unfolding recorded_def by fastforce
  then show ?thesis
    using r by (simp add: on_reply_def ev cp Let_def fire_recorded)
qed

lemma start_recorded: "recorded ref (start ref)"
  by (simp add: start_def length_pages Let_def recorded_def)

lemma poll_recorded: "recorded ref (poll v ref evs)"
proof -
  have "recorded ref st \<Longrightarrow> recorded ref (foldl (on_reply v ref) st evs)" for st
    by (induction evs arbitrary: st) (simp_all add: on_reply_recorded)
  then show ?thesis by (simp add: poll_def start_recorded)
qed

text \<open>
  C8, at an input where the code departs from it. Both pages load and show nothing.
  The result object handed to the callback has the property \<open>status\<close> and no other:
  the \<open>details\<close> that the doc comment of \<open>poll\<close> describes is not a property of it, and
  reading it gives \<open>undefined\<close>.
\<close>

theorem result_lacks_details:
  "calls (poll ShowLowestPrice 1 [(0, Inr \<lparr>res_text = []\<rparr>), (1, Inr \<lparr>res_text = []\<rparr>)]) =
     [(None, JObj 1 [(''status'', JStr ''unavailable'')])] \<and>
   ''details'' \<notin> set (own_keys (JObj 1 [(''status'', JStr ''unavailable'')])) \<and>
   get_prop (JObj 1 [(''status'', JStr ''unavailable'')]) ''details'' = JUndefined"
  by (simp add: calls_two select_def)

text \<open>
  C10. On every invocation of the callback of \<open>poll\<close>, with or without an error, the
  result argument is an object whose \<open>status\<close> is \<open>available\<close> or \<open>unavailable\<close>.
\<close>

theorem callback_always_gets_status:
  assumes "(e, r) \<in> set (calls (poll v ref evs))"
  shows "\<exists>ps. r = JObj ref ps \<and>
           (get_prop r ''status'' = JStr ''available'' \<or> get_prop r ''status'' = JStr ''unavailable'')"
proof -
  from poll_recorded [of ref v evs] assms obtain rs where "r = aggregated ref rs"
    unfolding recorded_def by fastforce
  then show ?thesis by (simp add: aggregated_def)
qed

theorem callback_always_gets_status_witness:
  "(Some (Error ''timeout''), JObj 1 [(''status'', JStr ''unavailable'')])
     \<in> set (calls (poll ShowLowestPrice 1 [(0, Inl (Error ''timeout'')), (1, Inl (Error ''reset''))])) \<and>
   (\<exists>ps. JObj 1 [(''status'', JStr ''unavailable'')] = JObj 1 ps \<and>
      (get_prop (JObj 1 [(''status'', JStr ''unavailable'')]) ''status'' = JStr ''available'' \<or>
       get_prop (JObj 1 [(''status'', JStr ''unavailable'')]) ''status'' = JStr ''unavailable''))"
proof -
  have h: "(Some (Error ''timeout''), JObj 1 [(''status'', JStr ''unavailable'')])
     \<in> set (calls (poll ShowLowestPrice 1 [(0, Inl (Error ''timeout'')), (1, Inl (Error ''reset''))]))"
    by (simp add: calls_two)
  from h callback_always_gets_status [OF h] show ?thesis by (rule conjI)
qed

subsection \<open>Complete cycles\<close>

lemma complete_calls:
  assumes "complete evs"
  shows "\<exists>e s. calls (poll v ref evs) = [(e, JObj ref [(''status'', JStr s)])] \<and>
           (s = ''available'' \<or> s = ''unavailable'') \<and>
           (e = None \<longleftrightarrow> (\<forall>ev\<in>set evs. \<not> isl (snd ev)))"
proof -
  from complete_cases [OF assms] obtain r0 r1 where
    "evs = [(0, r0), (1, r1)] \<or> evs = [(1, r1), (0, r0)]" by blast
  then show ?thesis
  proof
    assume "evs = [(0, r0), (1, r1)]"
    then show ?thesis by (cases r0; cases r1) (simp_all add: calls_two)
  next
    assume "evs = [(1, r1), (0, r0)]"
    then show ?thesis by (cases r0; cases r1) (simp_all add: calls_two)
  qed
qed

lemma complete_all_failed:
  assumes "complete evs" "\<forall>ev\<in>set evs. isl (snd ev)"
  shows "\<exists>e. calls (poll v ref evs) = [(Some e, JObj ref [(''status'', JStr ''unavailable'')])] \<and>
           snd (hd evs) = Inl e"
proof -
  from complete_cases [OF assms(1)] obtain r0 r1 where
    "evs = [(0, r0), (1, r1)] \<or> evs = [(1, r1), (0, r0)]" by blast
  then show ?thesis
  proof
    assume "evs = [(0, r0), (1, r1)]"
    then show ?thesis using assms(2) by (cases r0; cases r1) (simp_all add: calls_two)
  next
    assume "evs = [(1, r1), (0, r0)]"
    then show ?thesis using assms(2) by (cases r0; cases r1) (simp_all add: calls_two)
  qed
qed

lemma complete_unchanged:
  assumes "complete evs" "\<forall>ev\<in>set evs. snd ev = Inr res"
  shows "calls (poll v ref evs) =
           [(None, JObj ref [(''status'',
              JStr (if select (selector v) (res_text res) \<noteq> [] then ''available'' else ''unavailable''))])]"
proof -
  from complete_cases [OF assms(1)] obtain r0 r1 where
    "evs = [(0, r0), (1, r1)] \<or> evs = [(1, r1), (0, r0)]" by blast
  then show ?thesis
  proof
    assume "evs = [(0, r0), (1, r1)]"
    then show ?thesis using assms(2) by (simp add: calls_two)
  next
    assume "evs = [(1, r1), (0, r0)]"
    then show ?thesis using assms(2) by (simp add: calls_two)
  qed
qed

lemma complete_nothing_found:
  assumes "complete evs"
    "\<forall>ev\<in>set evs. \<exists>res. snd ev = Inr res \<and> select (selector v) (res_text res) = []"
  shows "calls (poll v ref evs) = [(None, JObj ref [(''status'', JStr ''unavailable'')])]"
proof -
  from complete_cases [OF assms(1)] obtain r0 r1 where
    "evs = [(0, r0), (1, r1)] \<or> evs = [(1, r1), (0, r0)]" by blast
  then show ?thesis
  proof
    assume "evs = [(0, r0), (1, r1)]"
    then show ?thesis using assms(2) by (auto simp: calls_two)
  next
    assume "evs = [(1, r1), (0, r0)]"
    then show ?thesis using assms(2) by (auto simp: calls_two)
  qed
qed

lemma complete_01: "complete [(0, a), (1, b)]" "complete [(1, b), (0, a)]"
  by (auto simp: complete_def length_pages)

text \<open>
  C1, at the input where the code departs from it. Page 1 fails before page 2 has
  answered; page 2 then loads with a priced slot, so its outcome is \<open>true\<close>. The error
  of page 1 has already ended the map: the callback has run with the status
  \<open>unavailable\<close>, aggregated from the results array as it was then, and the outcome
  of page 2 never enters the aggregation.
\<close>

theorem late_outcome_not_aggregated:
  "snd (snd (processPage ShowLowestPrice (Inr \<lparr>res_text = priced_page\<rparr>))) = JBool True \<and>
   calls (poll ShowLowestPrice 1
            [(0, Inl (Error ''timeout'')), (1, Inr \<lparr>res_text = priced_page\<rparr>)]) =
     [(Some (Error ''timeout''), JObj 1 [(''status'', JStr ''unavailable'')])]"
  by (simp add: calls_two processPage_cases select_def priced_page_def)

text \<open>
  C3, at the input where the code departs from it, in the version that looks for links.
  Page 1 fails first and page 2 then loads with a link: the error of page 1 is logged and
  handed to the callback, page 2 is still evaluated and its \<open>true\<close> is stored in the
  results array, but the one invocation of the callback has happened before, with
  the status \<open>unavailable\<close>.
\<close>

theorem failed_page_hides_other_page:
  "poll AnyLink 1 [(0, Inl (Error ''timeout'')), (1, Inr \<lparr>res_text = link_page\<rparr>)] =
     \<lparr>results = [JUndefined, JBool True], completed = 0, called = True,
      calls = [(Some (Error ''timeout''), JObj 1 [(''status'', JStr ''unavailable'')])],
      logged = [DebugCalled ''http://www.seetickets.com/tour/dismaland/calendar/1'',
                ErrorLogged (Error ''timeout''),
                DebugDone [JUndefined],
                DebugCalled ''http://www.seetickets.com/tour/dismaland/calendar/2'']\<rparr>"
  by (simp add: poll_def start_def on_reply_def fire_def check_page_def processPage_cases
      poll_done_eq array_set_def pages_def Let_def select_def link_page_def)

text \<open>
  C4. In a complete cycle where every page check fails, the callback is invoked once
  with a non-null error, the error of the page that failed first, next to the result
  object with the status \<open>unavailable\<close>; the cycle in which every page loaded and nothing
  matched is invoked with the same status and no error. So the status \<open>unavailable\<close> is
  never delivered silently after a total failure.
\<close>

theorem all_failed_reports_error:
  assumes "complete evs"
  shows "((\<forall>ev\<in>set evs. isl (snd ev)) \<longrightarrow>
            (\<exists>e. calls (poll v ref evs) =
                   [(Some e, JObj ref [(''status'', JStr ''unavailable'')])] \<and>
                 snd (hd evs) = Inl e)) \<and>
         ((\<forall>ev\<in>set evs. \<exists>res. snd ev = Inr res \<and> select (selector v) (res_text res) = []) \<longrightarrow>
            calls (poll v ref evs) = [(None, JObj ref [(''status'', JStr ''unavailable'')])])"
  using complete_all_failed [OF assms, of v ref] complete_nothing_found [OF assms, of v ref]
  by blast

theorem all_failed_reports_error_witness:
  "complete [(1, Inl (Error ''timeout'')), (0, Inl (Error ''refused''))] \<and>
   list_all (\<lambda>ev. isl (snd ev))
     [(1::nat, Inl (Error ''timeout'') :: reply), (0, Inl (Error ''refused''))] \<and>
   (\<exists>e. calls (poll ShowLowestPrice 1 [(1, Inl (Error ''timeout'')), (0, Inl (Error ''refused''))])
            = [(Some e, JObj 1 [(''status'', JStr ''unavailable'')])] \<and>
          snd (hd [(1::nat, Inl (Error ''timeout'') :: reply), (0, Inl (Error ''refused''))]) = Inl e) \<and>
   complete [(0, Inr \<lparr>res_text = link_page\<rparr>), (1, Inr \<lparr>res_text = []\<rparr>)] \<and>
   list_all (\<lambda>ev. \<exists>res. snd ev = Inr res \<and> select (selector ShowLowestPrice) (res_text res) = [])
     [(0::nat, Inr \<lparr>res_text = link_page\<rparr> :: reply), (1, Inr \<lparr>res_text = []\<rparr>)] \<and>
   calls (poll ShowLowestPrice 1 [(0, Inr \<lparr>res_text = link_page\<rparr>), (1, Inr \<lparr>res_text = []\<rparr>)])
     = [(None, JObj 1 [(''status'', JStr ''unavailable'')])]"
proof -
  let ?f = "[(1::nat, Inl (Error ''timeout'') :: reply), (0, Inl (Error ''refused''))]"
  let ?n = "[(0::nat, Inr \<lparr>res_text = link_page\<rparr> :: reply), (1, Inr \<lparr>res_text = []\<rparr>)]"
  have cf: "complete ?f" by (rule complete_01)
  have cn: "complete ?n" by (rule complete_01)
  have hf: "\<forall>ev\<in>set ?f. isl (snd ev)" by simp
  have hn: "\<forall>ev\<in>set ?n. \<exists>res. snd ev = Inr res \<and>
              select (selector ShowLowestPrice) (res_text res) = []"
    by (simp add: select_def link_page_def)
  from all_failed_reports_error [OF cf, of ShowLowestPrice 1] hf
  have f: "\<exists>e. calls (poll ShowLowestPrice 1 ?f) =
                 [(Some e, JObj 1 [(''status'', JStr ''unavailable'')])] \<and> snd (hd ?f) = Inl e"
    by blast
  from all_failed_reports_error [OF cn, of ShowLowestPrice 1] hn
  have n: "calls (poll ShowLowestPrice 1 ?n) = [(None, JObj 1 [(''status'', JStr ''unavailable'')])]"
    by blast
  have lf: "list_all (\<lambda>ev. isl (snd ev)) ?f" by simp
  have ln: "list_all (\<lambda>ev. \<exists>res. snd ev = Inr res \<and>
              select (selector ShowLowestPrice) (res_text res) = []) ?n"
    using hn by (simp only: list_all_iff)
  from cf lf f cn ln n show ?thesis by (intro conjI)
qed

subsection \<open>Change detection and notification\<close>

lemma isEqual_refl: "isEqual v v"
  by (cases v) simp_all

lemma callback_next_ref: "next_ref (callback rcpt e r st) = next_ref st"
  by (cases e) (simp_all add: callback_def Let_def)

lemma callback_changed:
  "\<not> eq (currentResult st) r \<Longrightarrow>
     currentResult (callback rcpt e r st) = r \<and>
     outbox (callback rcpt e r st) = outbox st @
       [Mail ''dimwatch@slytherin-basement.com'' rcpt ''Dismaland availability changed!''
          (''Dismaland is now '' @ to_string (get_prop r ''status'')),
        PushDevices,
        PushNote ''Dismaland availability changed!''
          (''Dismaland is now '' @ to_string (get_prop r ''status''))]"
  by (cases e) (simp_all add: callback_def Let_def)

lemma callback_unchanged:
  "eq (currentResult st) r \<Longrightarrow>
     currentResult (callback rcpt e r st) = currentResult st \<and>
     outbox (callback rcpt e r st) = outbox st"
  by (cases e) (simp_all add: callback_def Let_def)

lemma tick_single:
  "calls (poll v (next_ref st) evs) = [(e, r)] \<Longrightarrow>
     tick v cb st evs = cb e r (st\<lparr>next_ref := Suc (next_ref st)\<rparr>)"
  by (simp add: tick_def Let_def)

lemma app_snoc:
  "app v rcpt (cs @ [evs]) = tick v (callback rcpt) (app v rcpt cs) evs"
  by (simp add: app_def startPolling_def)

lemma callbacks_allocated:
  assumes "allocated s" "ref < next_ref s" "\<forall>c\<in>set cs. \<exists>ps. snd c = JObj ref ps"
  shows "allocated (foldl (\<lambda>s c. case c of (e, r) \<Rightarrow> callback rcpt e r s) s cs)"
  using assms
proof (induction cs arbitrary: s)
  case Nil
  then show ?case by simp
next
  case (Cons c cs)
  obtain e r where c: "c = (e, r)" by (cases c)
  from Cons.prems(3) c obtain ps where r: "r = JObj ref ps" by auto
  have "allocated (callback rcpt e r s)"
  proof (cases "eq (currentResult s) r")
    case True
    then show ?thesis using Cons.prems(1) callback_unchanged [of s r rcpt e]
      by (simp add: allocated_def callback_next_ref)
  next
    case False
    then show ?thesis using Cons.prems(2) callback_changed [of s r rcpt e] r
      by (simp add: allocated_def callback_next_ref)
  qed
  moreover have "ref < next_ref (callback rcpt e r s)"
    using Cons.prems(2) by (simp add: callback_next_ref)
  ultimately show ?case using Cons.IH Cons.prems(3) c by simp
qed

lemma tick_allocated:
  assumes "allocated st"
  shows "allocated (tick v (callback rcpt) st evs)"
proof (cases "calls (poll v (next_ref st) evs) = []")
  case True
  then show ?thesis using assms by (simp add: tick_def allocated_def)
next
  case False
  let ?cs = "calls (poll v (next_ref st) evs)"
  have a: "allocated (st\<lparr>next_ref := next_ref st + length ?cs\<rparr>)"
    using assms by (auto simp: allocated_def)
  have b: "next_ref st < next_ref (st\<lparr>next_ref := next_ref st + length ?cs\<rparr>)"
    using False by simp
  have c: "\<forall>c\<in>set ?cs. \<exists>ps. snd c = JObj (next_ref st) ps"
    using poll_recorded [of "next_ref st" v evs] unfolding recorded_def aggregated_def by blast
  from callbacks_allocated [OF a b c] show ?thesis by (simp add: tick_def Let_def)
qed

lemma app_allocated: "allocated (app v rcpt cs)"
proof (induction cs rule: rev_induct)
  case Nil
  then show ?case by (simp add: app_def startPolling_def init_def allocated_def)
next
  case (snoc evs cs)
  then show ?case by (simp add: app_snoc tick_allocated)
qed


lemma same_fields_isEqual:
  assumes "distinct (map fst ps)" "distinct (map fst qs)" "map_of ps = map_of qs"
  shows "isEqual (JObj i ps) (JObj j qs)"
proof -
  have "set (map fst ps) = set (map fst qs)"
    using assms(3) by (metis dom_map_of_conv_image_fst set_map)
  then have "card (set (map fst ps)) = card (set (map fst qs))" by simp
  then have len: "length ps = length qs"
    using assms(1,2) by (simp only: distinct_card length_map)
  have "case map_of qs k of None \<Rightarrow> False | Some w \<Rightarrow> isEqual v w" if "(k, v) \<in> set ps" for k v
  proof -
    from that assms(1) have "map_of ps k = Some v" by simp
    then show ?thesis using assms(3) by (simp add: isEqual_refl)
  qed
  then have "list_all (\<lambda>(k, v). case map_of qs k of None \<Rightarrow> False | Some w \<Rightarrow> isEqual v w) ps"
    unfolding list_all_iff by blast
  with len show ?thesis by simp
qed

text \<open>
  C2. Two result objects whose only properties are \<open>status\<close> and \<open>details\<close>, with the
  same value (or the same absence) for each, compare equal under \<open>eq\<close> whatever their
  addresses and the order of their properties; the callback then sends nothing.
\<close>

theorem equal_fields_compare_equal:
  assumes "distinct (map fst ps)" "distinct (map fst qs)"
    and "set (map fst ps) \<subseteq> {''status'', ''details''}"
    and "set (map fst qs) \<subseteq> {''status'', ''details''}"
    and "map_of ps ''status'' = map_of qs ''status''"
    and "map_of ps ''details'' = map_of qs ''details''"
  shows "eq (JObj i ps) (JObj j qs) \<and>
         outbox (callback rcpt err (JObj j qs) (st\<lparr>currentResult := JObj i ps\<rparr>)) = outbox st"
proof -
  have "map_of ps k = map_of qs k" for k
  proof (cases "k = ''status'' \<or> k = ''details''")
    case True
    then show ?thesis using assms(5,6) by auto
  next
    case False
    then have "k \<notin> set (map fst ps)" "k \<notin> set (map fst qs)" using assms(3,4) by auto
    then have "map_of ps k = None" "map_of qs k = None" by (simp_all add: map_of_eq_None_iff)
    then show ?thesis by simp
  qed
  then have "map_of ps = map_of qs" by (rule ext)
  from same_fields_isEqual [OF assms(1,2) this] have e: "eq (JObj i ps) (JObj j qs)"
    by (simp add: eq_def)
  then have "eq (currentResult (st\<lparr>currentResult := JObj i ps\<rparr>)) (JObj j qs)" by simp
  from callback_unchanged [OF this] e show ?thesis by simp
qed

theorem equal_fields_compare_equal_witness:
  "distinct (map fst [(''status'', JStr ''available''), (''details'', JNull)]) \<and>
   distinct (map fst [(''details'', JNull), (''status'', JStr ''available'')]) \<and>
   set (map fst [(''status'', JStr ''available''), (''details'', JNull)]) \<subseteq> {''status'', ''details''} \<and>
   set (map fst [(''details'', JNull), (''status'', JStr ''available'')]) \<subseteq> {''status'', ''details''} \<and>
   map_of [(''status'', JStr ''available''), (''details'', JNull)] ''status'' =
     map_of [(''details'', JNull), (''status'', JStr ''available'')] ''status'' \<and>
   map_of [(''status'', JStr ''available''), (''details'', JNull)] ''details'' =
     map_of [(''details'', JNull), (''status'', JStr ''available'')] ''details'' \<and>
   (eq (JObj 1 [(''status'', JStr ''available''), (''details'', JNull)])
       (JObj 2 [(''details'', JNull), (''status'', JStr ''available'')]) \<and>
    outbox (callback ''me@example.org'' None
              (JObj 2 [(''details'', JNull), (''status'', JStr ''available'')])
              (init\<lparr>currentResult := JObj 1 [(''status'', JStr ''available''), (''details'', JNull)]\<rparr>))
      = outbox init)"
proof -
  let ?ps = "[(''status'', JStr ''available''), (''details'', JNull)]"
  let ?qs = "[(''details'', JNull), (''status'', JStr ''available'')]"
  have h1: "distinct (map fst ?ps)" by simp
  have h2: "distinct (map fst ?qs)" by simp
  have h3: "set (map fst ?ps) \<subseteq> {''status'', ''details''}" by simp
  have h4: "set (map fst ?qs) \<subseteq> {''status'', ''details''}" by simp
  have h5: "map_of ?ps ''status'' = map_of ?qs ''status''" by simp
  have h6: "map_of ?ps ''details'' = map_of ?qs ''details''" by simp
  from h1 h2 h3 h4 h5 h6
    equal_fields_compare_equal [OF h1 h2 h3 h4 h5 h6, of 1 2 "''me@example.org''" None init]
  show ?thesis by blast
qed



text \<open>
  C5. Two complete cycles in which every request is answered with the same page give
  results that compare equal, at whatever addresses they are allocated; and when the
  two cycles follow each other, after any earlier cycles, the second one adds nothing
  to what has been sent.
\<close>

theorem unchanged_page_no_duplicate:
  assumes "complete evs1" "complete evs2"
    and "\<forall>ev\<in>set evs1 \<union> set evs2. snd ev = Inr res"
  shows "\<exists>r1 r2. calls (poll v a evs1) = [(None, r1)] \<and>
           calls (poll v b evs2) = [(None, r2)] \<and>
           eq r1 r2 \<and>
           outbox (app v rcpt (cs @ [evs1, evs2])) =
           outbox (app v rcpt (cs @ [evs1]))"
proof -
  let ?s = "JStr (if select (selector v) (res_text res) \<noteq> [] then ''available'' else ''unavailable'')"
  have u1: "calls (poll v k evs1) = [(None, JObj k [(''status'', ?s)])]" for k
    using complete_unchanged [OF assms(1), of res v k] assms(3) by simp
  have u2: "calls (poll v k evs2) = [(None, JObj k [(''status'', ?s)])]" for k
    using complete_unchanged [OF assms(2), of res v k] assms(3) by simp
  have e12: "eq (JObj a [(''status'', ?s)]) (JObj b [(''status'', ?s)])"
    by (simp add: eq_def)
  let ?st = "app v rcpt cs"
  let ?n = "next_ref ?st"
  let ?st1 = "tick v (callback rcpt) ?st evs1"
  have t1: "?st1 = callback rcpt None (JObj ?n [(''status'', ?s)]) (?st\<lparr>next_ref := Suc ?n\<rparr>)"
    by (rule tick_single [OF u1])
  then have n1: "next_ref ?st1 = Suc ?n" by (simp add: callback_next_ref)
  from app_allocated [of v rcpt cs] obtain i ps where
    cur: "currentResult ?st = JObj i ps" and i: "i < ?n" by (auto simp: allocated_def)
  have same: "eq (currentResult ?st1) (JObj (Suc ?n) [(''status'', ?s)])"
  proof (cases "eq (currentResult ?st) (JObj ?n [(''status'', ?s)])")
    case True
    then have "eq (currentResult (?st\<lparr>next_ref := Suc ?n\<rparr>)) (JObj ?n [(''status'', ?s)])" by simp
    from callback_unchanged [OF this, of rcpt None] have "currentResult ?st1 = JObj i ps"
      by (simp add: t1 cur)
    moreover from True cur i have "eq (JObj i ps) (JObj (Suc ?n) [(''status'', ?s)])"
      by (simp add: eq_def)
    ultimately show ?thesis by simp
  next
    case False
    then have "\<not> eq (currentResult (?st\<lparr>next_ref := Suc ?n\<rparr>)) (JObj ?n [(''status'', ?s)])" by simp
    from callback_changed [OF this, of rcpt None] have "currentResult ?st1 = JObj ?n [(''status'', ?s)]"
      by (simp add: t1)
    then show ?thesis by (simp add: eq_def)
  qed
  have "tick v (callback rcpt) ?st1 evs2 =
          callback rcpt None (JObj (Suc ?n) [(''status'', ?s)]) (?st1\<lparr>next_ref := Suc (Suc ?n)\<rparr>)"
    using tick_single [of v ?st1 evs2 None "JObj (Suc ?n) [(''status'', ?s)]" "callback rcpt"]
      u2 [of "Suc ?n"]
    by (simp add: n1)
  moreover have "eq (currentResult (?st1\<lparr>next_ref := Suc (Suc ?n)\<rparr>)) (JObj (Suc ?n) [(''status'', ?s)])"
    using same by simp
  ultimately have "outbox (tick v (callback rcpt) ?st1 evs2) = outbox ?st1"
    using callback_unchanged [of "?st1\<lparr>next_ref := Suc (Suc ?n)\<rparr>" "JObj (Suc ?n) [(''status'', ?s)]" rcpt None]
    by simp
  moreover have "app v rcpt (cs @ [evs1, evs2]) = tick v (callback rcpt) ?st1 evs2"
    by (simp add: app_def startPolling_def)
  moreover have "app v rcpt (cs @ [evs1]) = ?st1"
    by (simp add: app_def startPolling_def)
  ultimately have "outbox (app v rcpt (cs @ [evs1, evs2])) =
                   outbox (app v rcpt (cs @ [evs1]))" by simp
  with u1 [of a] u2 [of b] e12 show ?thesis by blast
qed

theorem unchanged_page_no_duplicate_witness:
  "complete [(0, Inr \<lparr>res_text = priced_page\<rparr>), (1, Inr \<lparr>res_text = priced_page\<rparr>)] \<and>
   complete [(1, Inr \<lparr>res_text = priced_page\<rparr>), (0, Inr \<lparr>res_text = priced_page\<rparr>)] \<and>
   list_all (\<lambda>ev. snd ev = Inr \<lparr>res_text = priced_page\<rparr>)
     ([(0::nat, Inr \<lparr>res_text = priced_page\<rparr> :: reply), (1, Inr \<lparr>res_text = priced_page\<rparr>)] @
      [(1, Inr \<lparr>res_text = priced_page\<rparr>), (0, Inr \<lparr>res_text = priced_page\<rparr>)]) \<and>
   (\<exists>r1 r2.
      calls (poll ShowLowestPrice 1
               [(0, Inr \<lparr>res_text = priced_page\<rparr>), (1, Inr \<lparr>res_text = priced_page\<rparr>)]) = [(None, r1)] \<and>
      calls (poll ShowLowestPrice 2
               [(1, Inr \<lparr>res_text = priced_page\<rparr>), (0, Inr \<lparr>res_text = priced_page\<rparr>)]) = [(None, r2)] \<and>
      eq r1 r2 \<and>
      outbox (app ShowLowestPrice ''me@example.org''
                ([] @ [[(0, Inr \<lparr>res_text = priced_page\<rparr>), (1, Inr \<lparr>res_text = priced_page\<rparr>)],
                       [(1, Inr \<lparr>res_text = priced_page\<rparr>), (0, Inr \<lparr>res_text = priced_page\<rparr>)]])) =
      outbox (app ShowLowestPrice ''me@example.org''
                ([] @ [[(0, Inr \<lparr>res_text = priced_page\<rparr>), (1, Inr \<lparr>res_text = priced_page\<rparr>)]])))"
proof -
  let ?e1 = "[(0::nat, Inr \<lparr>res_text = priced_page\<rparr> :: reply), (1, Inr \<lparr>res_text = priced_page\<rparr>)]"
  let ?e2 = "[(1::nat, Inr \<lparr>res_text = priced_page\<rparr> :: reply), (0, Inr \<lparr>res_text = priced_page\<rparr>)]"
  have h1: "complete ?e1" by (rule complete_01)
  have h2: "complete ?e2" by (rule complete_01)
  have h3: "\<forall>ev\<in>set ?e1 \<union> set ?e2. snd ev = Inr \<lparr>res_text = priced_page\<rparr>" by simp
  have l3: "list_all (\<lambda>ev. snd ev = Inr \<lparr>res_text = priced_page\<rparr>) (?e1 @ ?e2)" by simp
  from h1 h2 l3
    unchanged_page_no_duplicate [OF h1 h2 h3, of ShowLowestPrice 1 2 "''me@example.org''" "[]"]
  show ?thesis by (intro conjI)
qed

subsection \<open>The markup test of one page\<close>

lemma nested_node:
  "nested (s # ss) (n # ns) \<longleftrightarrow> (matches_simple s n \<and> nested ss (inside n)) \<or> nested (s # ss) ns"
  by auto

lemma nested_children:
  "nested (s # ss) (concat (map (\<lambda>k. k # inside k) ch)) \<longleftrightarrow>
     (\<exists>k\<in>set ch. nested (s # ss) (k # inside k))"
  by auto

lemma has_ancestors_outer:
  "has_ancestors [b, a] anc \<Longrightarrow> has_ancestors [a] anc"
  by (induction anc) (auto split: if_splits)

lemma has_ancestors_push1:
  "has_ancestors [a] (x # anc) \<longleftrightarrow> matches_simple a x \<or> has_ancestors [a] anc"
  by simp

lemma has_ancestors_push2:
  "has_ancestors [b, a] (x # anc) \<longleftrightarrow>
     has_ancestors [b, a] anc \<or> (matches_simple b x \<and> has_ancestors [a] anc)"
  using has_ancestors_outer [of b a anc] by auto

lemma select_in_nested:
  "select_in c [b, a] anc n \<noteq> [] \<longleftrightarrow>
     (has_ancestors [b, a] anc \<and> nested [c] (n # inside n)) \<or>
     (has_ancestors [a] anc \<and> nested [b, c] (n # inside n)) \<or>
     nested [a, b, c] (n # inside n)"
proof (induction n arbitrary: anc)
  case (TextNode x)
  show ?case by simp
next
  case (Element t cs ch)
  let ?n = "Element t cs ch"
  have sel: "select_in c [b, a] anc ?n \<noteq> [] \<longleftrightarrow>
      (matches_simple c ?n \<and> has_ancestors [b, a] anc) \<or>
      (\<exists>k\<in>set ch. select_in c [b, a] (?n # anc) k \<noteq> [])"
    by auto
  have ih: "select_in c [b, a] (?n # anc) k \<noteq> [] \<longleftrightarrow>
      (has_ancestors [b, a] (?n # anc) \<and> nested [c] (k # inside k)) \<or>
      (has_ancestors [a] (?n # anc) \<and> nested [b, c] (k # inside k)) \<or>
      nested [a, b, c] (k # inside k)" if "k \<in> set ch" for k
    using Element.IH [OF that] .
  have in1: "nested [c] (inside ?n) \<longleftrightarrow> (\<exists>k\<in>set ch. nested [c] (k # inside k))"
    unfolding inside.simps by (rule nested_children)
  have in2: "nested [b, c] (inside ?n) \<longleftrightarrow> (\<exists>k\<in>set ch. nested [b, c] (k # inside k))"
    unfolding inside.simps by (rule nested_children)
  have in3: "nested [a, b, c] (inside ?n) \<longleftrightarrow> (\<exists>k\<in>set ch. nested [a, b, c] (k # inside k))"
    unfolding inside.simps by (rule nested_children)
  have n1: "nested [c] (?n # inside ?n) \<longleftrightarrow> matches_simple c ?n \<or> nested [c] (inside ?n)"
    using nested_node [of c "[]" ?n "inside ?n"] by simp
  have n2: "nested [b, c] (?n # inside ?n) \<longleftrightarrow>
      (matches_simple b ?n \<and> nested [c] (inside ?n)) \<or> nested [b, c] (inside ?n)"
    by (rule nested_node)
  have n3: "nested [a, b, c] (?n # inside ?n) \<longleftrightarrow>
      (matches_simple a ?n \<and> nested [b, c] (inside ?n)) \<or> nested [a, b, c] (inside ?n)"
    by (rule nested_node)
  note p1 = has_ancestors_push1 [of a ?n anc]
  note p2 = has_ancestors_push2 [of b a ?n anc]
  show ?case
    unfolding sel n1 n2 n3 in1 in2 in3 using ih p1 p2 by blast
qed

lemma select_nested:
  "select [a, b, c] doc \<noteq> [] \<longleftrightarrow> nested [a, b, c] (nodes_of doc)"
proof -
  have "select [a, b, c] doc \<noteq> [] \<longleftrightarrow> (\<exists>n\<in>set doc. select_in c [b, a] [] n \<noteq> [])"
    by (simp add: select_def)
  also have "\<dots> \<longleftrightarrow> (\<exists>n\<in>set doc. nested [a, b, c] (n # inside n))"
    by (simp only: select_in_nested has_ancestors.simps simp_thms)
  also have "\<dots> \<longleftrightarrow> nested [a, b, c] (nodes_of doc)"
    unfolding nodes_of_def by (rule nested_children [symmetric])
  finally show ?thesis .
qed

text \<open>
  C6, as the code has it. For a page that was fetched, the outcome is \<open>true\<close> exactly
  when the document has an element of class \<open>day-has-shows\<close> with, among its
  descendants, an element of class \<open>times\<close> that has among its own descendants the
  element the version looks for: one of class \<open>show-lowest-price\<close> in the first version,
  an \<open>a\<close> element in the second. Each version tests its own selector only.
\<close>

theorem processPage_outcome:
  "processPage ShowLowestPrice (Inr res) =
     ([], None,
      JBool (\<exists>d\<in>set (nodes_of (res_text res)). matches_simple (ByClass ''day-has-shows'') d \<and>
              (\<exists>t\<in>set (inside d). matches_simple (ByClass ''times'') t \<and>
                 (\<exists>s\<in>set (inside t). matches_simple (ByClass ''show-lowest-price'') s)))) \<and>
   processPage AnyLink (Inr res) =
     ([], None,
      JBool (\<exists>d\<in>set (nodes_of (res_text res)). matches_simple (ByClass ''day-has-shows'') d \<and>
              (\<exists>t\<in>set (inside d). matches_simple (ByClass ''times'') t \<and>
                 (\<exists>s\<in>set (inside t). matches_simple (ByTag ''a'') s))))"
proof -
  have "nested [a, b, c] ns \<longleftrightarrow>
          (\<exists>d\<in>set ns. matches_simple a d \<and>
             (\<exists>t\<in>set (inside d). matches_simple b t \<and>
                (\<exists>s\<in>set (inside t). matches_simple c s)))" for a b c ns
    by simp
  then have "select [a, b, c] doc \<noteq> [] \<longleftrightarrow>
          (\<exists>d\<in>set (nodes_of doc). matches_simple a d \<and>
             (\<exists>t\<in>set (inside d). matches_simple b t \<and>
                (\<exists>s\<in>set (inside t). matches_simple c s)))" for a b c doc
    by (simp only: select_nested)
  then show ?thesis
    by (simp only: processPage_cases selector.simps sum.case simp_thms)
qed

text \<open>
  C6 as stated fails in both versions. A day whose time slot is a plain link is
  available in the words of the specification, and the first version answers \<open>false\<close>;
  a day whose priced slot is not a link is available too, and the second version
  answers \<open>false\<close>.
\<close>

theorem processPage_misses_other_element:
  "spec_page_available link_page \<and>
   processPage ShowLowestPrice (Inr \<lparr>res_text = link_page\<rparr>) = ([], None, JBool False) \<and>
   spec_page_available priced_page \<and>
   processPage AnyLink (Inr \<lparr>res_text = priced_page\<rparr>) = ([], None, JBool False)"
  by (simp add: spec_page_available_def nodes_of_def link_page_def priced_page_def
      processPage_cases select_def)

subsection \<open>One invocation for each cycle\<close>

lemma calls_before_last:
  assumes "i < 2" "k < 2"
  shows "calls (poll v ref (take k [(i, Inr a), (j, rj)])) = []"
proof -
  have s0: "start ref = \<lparr>results = [], completed = 2, called = False, calls = [], logged = []\<rparr>"
    by (simp add: start_def length_pages Let_def)
  from assms(2) consider "k = 0" | "k = 1" by linarith
  then show ?thesis
  proof cases
    case 1
    then show ?thesis by (simp add: poll_def s0)
  next
    case 2
    then show ?thesis using assms(1)
      by (simp add: poll_def s0 on_reply_def check_page_def processPage_cases length_pages Let_def)
  qed
qed

text \<open>
  C7, as the code has it. A complete cycle invokes the callback exactly once. The
  invocation always carries a result object, and it carries an error as well exactly
  when the request of some page failed. When no request failed, the invocation is made
  by the last reply of the cycle: after fewer replies the callback has not run.
\<close>

theorem one_call_per_cycle:
  assumes "complete evs"
  shows "\<exists>e s. calls (poll v ref evs) = [(e, JObj ref [(''status'', JStr s)])] \<and>
           (e = None \<longleftrightarrow> (\<forall>ev\<in>set evs. \<not> isl (snd ev))) \<and>
           (e = None \<longrightarrow> (\<forall>k<length evs. calls (poll v ref (take k evs)) = []))"
proof -
  from complete_calls [OF assms, of v ref] obtain e s where
    c: "calls (poll v ref evs) = [(e, JObj ref [(''status'', JStr s)])]"
    and e: "e = None \<longleftrightarrow> (\<forall>ev\<in>set evs. \<not> isl (snd ev))"
    by blast
  have "\<forall>k<length evs. calls (poll v ref (take k evs)) = []" if n: "e = None"
  proof -
    from complete_cases [OF assms] obtain r0 r1 where
      "evs = [(0, r0), (1, r1)] \<or> evs = [(1, r1), (0, r0)]" by blast
    then show ?thesis
    proof
      assume evs: "evs = [(0, r0), (1, r1)]"
      with n e obtain a where r: "r0 = Inr a" by (cases r0) auto
      have l: "length [(0::nat, Inr a :: reply), (1, r1)] = 2" by simp
      have "calls (poll v ref (take k [(0, Inr a), (1, r1)])) = []" if "k < 2" for k
        by (rule calls_before_last) (simp_all add: that)
      then have "\<forall>k<2. calls (poll v ref (take k [(0, Inr a), (1, r1)])) = []" by blast
      then show ?thesis unfolding evs r l .
    next
      assume evs: "evs = [(1, r1), (0, r0)]"
      with n e obtain a where r: "r1 = Inr a" by (cases r1) auto
      have l: "length [(1::nat, Inr a :: reply), (0, r0)] = 2" by simp
      have "calls (poll v ref (take k [(1, Inr a), (0, r0)])) = []" if "k < 2" for k
        by (rule calls_before_last) (simp_all add: that)
      then have "\<forall>k<2. calls (poll v ref (take k [(1, Inr a), (0, r0)])) = []" by blast
      then show ?thesis unfolding evs r l .
    qed
  qed
  with c e show ?thesis by blast
qed

theorem one_call_per_cycle_witness:
  "complete [(1, Inr \<lparr>res_text = priced_page\<rparr>), (0, Inr \<lparr>res_text = []\<rparr>)] \<and>
   (\<exists>e s. calls (poll AnyLink 2 [(1, Inr \<lparr>res_text = priced_page\<rparr>), (0, Inr \<lparr>res_text = []\<rparr>)])
            = [(e, JObj 2 [(''status'', JStr s)])] \<and>
          (e = None \<longleftrightarrow>
             (\<forall>ev\<in>set [(1::nat, Inr \<lparr>res_text = priced_page\<rparr> :: reply), (0, Inr \<lparr>res_text = []\<rparr>)].
                \<not> isl (snd ev))) \<and>
          (e = None \<longrightarrow>
             (\<forall>k<length [(1::nat, Inr \<lparr>res_text = priced_page\<rparr> :: reply), (0, Inr \<lparr>res_text = []\<rparr>)].
                calls (poll AnyLink 2
                  (take k [(1, Inr \<lparr>res_text = priced_page\<rparr>), (0, Inr \<lparr>res_text = []\<rparr>)])) = [])))"
proof -
  have h: "complete [(1, Inr \<lparr>res_text = priced_page\<rparr>), (0, Inr \<lparr>res_text = []\<rparr>)]"
    by (rule complete_01)
  from h one_call_per_cycle [OF h, of AnyLink 2] show ?thesis by (rule conjI)
qed

text \<open>
  C7 as stated fails: when both requests fail, the one invocation of the callback
  carries the error and a result object together; and it is made by the first failure,
  when the cycle is not complete yet.
\<close>

theorem error_and_result_together:
  "calls (poll ShowLowestPrice 1 [(0, Inl (Error ''timeout'')), (1, Inl (Error ''timeout''))]) =
     [(Some (Error ''timeout''), JObj 1 [(''status'', JStr ''unavailable'')])] \<and>
   calls (poll ShowLowestPrice 1 [(0, Inl (Error ''timeout''))]) =
     [(Some (Error ''timeout''), JObj 1 [(''status'', JStr ''unavailable'')])] \<and>
   \<not> complete [(0, Inl (Error ''timeout''))]"
proof -
  have "calls (poll ShowLowestPrice 1 [(0, Inl (Error ''timeout''))]) =
     [(Some (Error ''timeout''), JObj 1 [(''status'', JStr ''unavailable'')])]"
    by (simp add: poll_def start_def on_reply_def fire_def check_page_def processPage_cases
        poll_done_eq array_set_def length_pages Let_def)
  moreover have "\<not> complete [(0, Inl (Error ''timeout''))]"
  proof
    assume "complete [(0, Inl (Error ''timeout''))]"
    then have "set [0::nat] = set [0..<2]" by (simp add: complete_def length_pages)
    then have "(1::nat) \<in> set [0::nat]" by simp
    then show False by simp
  qed
  ultimately show ?thesis by (simp add: calls_two)
qed

end
